theory Spec2Isabelle
  imports Main "HOL-Library.Word" "HOL-Library.Multiset"
begin

section \<open>Data model\<close>

text \<open>
  \<^verbatim>\<open>type orderedData[T any] struct { order uint64; data T }\<close>
\<close>

record 'a orderedData =
  order :: "64 word"
  data :: 'a

text \<open>
  The fields of \<^verbatim>\<open>genericStream\<close> that are plain values. The channels are
  modelled by the pull links below; of \<^verbatim>\<open>prevDone\<close> the record keeps whether the
  channel is non-nil.
\<close>

record genericStream =
  closed :: bool
  parallel :: bool
  parallelCount :: int
  ordered :: bool
  terminalCloseCount :: int
  prevDone :: bool

text \<open>A panic carries its message; the message of \<^verbatim>\<open>limit\<close> is formatted from its argument.\<close>

datatype panic = Panic string | PanicMaxSizeNegative int

section \<open>Stream descriptors: constructors and intermediate operations\<close>

text \<open>
  Every constructor and intermediate operation does two things: it makes the descriptor
  of the new stream, after \<^verbatim>\<open>validateState\<close> on the old one, and it starts the worker
  goroutines of the new stage. This section has the descriptors, with a panic as the left
  summand of the result; the workers follow in the next sections.
\<close>

definition newGenericStream :: "genericStream \<Rightarrow> genericStream" where
  "newGenericStream gs =
     \<lparr>closed = False, parallel = parallel gs, parallelCount = parallelCount gs,
      ordered = False, terminalCloseCount = terminalCloseCount gs, prevDone = prevDone gs\<rparr>"

definition validateState :: "genericStream \<Rightarrow> panic + unit" where
  "validateState gs =
     (if closed gs then Inl (Panic ''stream has already been closed'') else Inr ())"

text \<open>\<^verbatim>\<open>close()\<close>: the last worker of a stage closes it.\<close>

definition close :: "genericStream \<Rightarrow> genericStream" where
  "close gs =
     (if closed gs then gs
      else let gs' = gs\<lparr>parallelCount := parallelCount gs - 1\<rparr>
           in if parallelCount gs' > 0 then gs' else gs'\<lparr>closed := True\<rparr>)"

text \<open>\<^verbatim>\<open>Close()\<close>: \<^verbatim>\<open>gs.validateState()\<close>, then \<^verbatim>\<open>panic("Not Implemented Yet")\<close>.\<close>

definition Close :: "genericStream \<Rightarrow> (panic + unit) \<times> genericStream" where
  "Close gs =
     (case validateState gs of
        Inl p \<Rightarrow> (Inl p, gs)
      | Inr _ \<Rightarrow> (Inl (Panic ''Not Implemented Yet''), gs))"

definition Of_stream :: genericStream where
  "Of_stream =
     \<lparr>closed = False, parallel = False, parallelCount = 1, ordered = False,
      terminalCloseCount = 0, prevDone = True\<rparr>"

text \<open>\<^verbatim>\<open>Empty\<close>, \<^verbatim>\<open>Iterate\<close>, \<^verbatim>\<open>IterateN\<close>, \<^verbatim>\<open>Generate\<close>, \<^verbatim>\<open>Concat\<close>,
  \<^verbatim>\<open>Distinct\<close> and \<^verbatim>\<open>FlatMap\<close> all return a literal with only \<^verbatim>\<open>parallelCount: 1\<close>
  and the two channels set.\<close>

definition single_stream :: genericStream where
  "single_stream =
     \<lparr>closed = False, parallel = False, parallelCount = 1, ordered = False,
      terminalCloseCount = 0, prevDone = False\<rparr>"

text \<open>
  \<^verbatim>\<open>Parallel()\<close> returns a parallel stream as it is and otherwise makes a stage of
  \<^verbatim>\<open>goMaxProcs\<close> workers, the value of \<^verbatim>\<open>runtime.GOMAXPROCS(-1)\<close>. \<^verbatim>\<open>Limit\<close> and
  \<^verbatim>\<open>Skip\<close> check \<^verbatim>\<open>gs.ordered && gs.parallelCount > 1\<close> and make a stage of one
  worker.
\<close>

definition Parallel :: "int \<Rightarrow> genericStream \<Rightarrow> panic + genericStream" where
  "Parallel goMaxProcs gs =
     (case validateState gs of
        Inl p \<Rightarrow> Inl p
      | Inr _ \<Rightarrow>
          if parallel gs then Inr gs
          else Inr ((newGenericStream gs)
                 \<lparr>parallel := True, parallelCount := goMaxProcs,
                  terminalCloseCount := goMaxProcs\<rparr>))"

definition Filter :: "genericStream \<Rightarrow> panic + genericStream" where
  "Filter gs = (case validateState gs of Inl p \<Rightarrow> Inl p | Inr _ \<Rightarrow> Inr (newGenericStream gs))"

definition Peek :: "genericStream \<Rightarrow> panic + genericStream" where
  "Peek gs = (case validateState gs of Inl p \<Rightarrow> Inl p | Inr _ \<Rightarrow> Inr (newGenericStream gs))"

definition Limit :: "genericStream \<Rightarrow> panic + genericStream" where
  "Limit gs =
     (case validateState gs of
        Inl p \<Rightarrow> Inl p
      | Inr _ \<Rightarrow>
          if ordered gs \<and> parallelCount gs > 1
          then Inl (Panic ''Limit doesn't support ordered parallel stream'')
          else Inr ((newGenericStream gs)\<lparr>parallelCount := 1\<rparr>))"

definition Skip :: "genericStream \<Rightarrow> panic + genericStream" where
  "Skip gs =
     (case validateState gs of
        Inl p \<Rightarrow> Inl p
      | Inr _ \<Rightarrow>
          if ordered gs \<and> parallelCount gs > 1
          then Inl (Panic ''Skip doesn't support ordered parallel stream'')
          else Inr ((newGenericStream gs)\<lparr>parallelCount := 1\<rparr>))"

definition Map_stream :: "genericStream \<Rightarrow> panic + genericStream" where
  "Map_stream gs =
     (case validateState gs of
        Inl p \<Rightarrow> Inl p
      | Inr _ \<Rightarrow>
          Inr \<lparr>closed = False, parallel = parallel gs, parallelCount = parallelCount gs,
               ordered = False, terminalCloseCount = 0, prevDone = False\<rparr>)"

definition FlatMap_stream :: "genericStream \<Rightarrow> panic + genericStream" where
  "FlatMap_stream gs =
     (case validateState gs of Inl p \<Rightarrow> Inl p | Inr _ \<Rightarrow> Inr single_stream)"

definition Distinct_stream :: "genericStream \<Rightarrow> panic + genericStream" where
  "Distinct_stream gs =
     (case validateState gs of Inl p \<Rightarrow> Inl p | Inr _ \<Rightarrow> Inr single_stream)"

definition Sorted_stream :: "genericStream \<Rightarrow> panic + genericStream" where
  "Sorted_stream gs =
     (case validateState gs of Inl p \<Rightarrow> Inl p | Inr _ \<Rightarrow> Inr Of_stream)"

definition Concat_stream :: "genericStream \<Rightarrow> genericStream \<Rightarrow> panic + genericStream" where
  "Concat_stream a b =
     (case validateState a of
        Inl p \<Rightarrow> Inl p
      | Inr _ \<Rightarrow> (case validateState b of Inl p \<Rightarrow> Inl p | Inr _ \<Rightarrow> Inr single_stream))"

text \<open>
  The stream descriptors a program can build: the library's constructors, closed under
  its intermediate operations, with \<^verbatim>\<open>goMaxProcs\<close> workers for a parallel stage.
\<close>

inductive built :: "int \<Rightarrow> genericStream \<Rightarrow> bool" for goMaxProcs :: int where
  built_Of: "built goMaxProcs Of_stream"
| built_single: "built goMaxProcs single_stream"
| built_Parallel: "built goMaxProcs gs \<Longrightarrow> Parallel goMaxProcs gs = Inr gs' \<Longrightarrow> built goMaxProcs gs'"
| built_Filter: "built goMaxProcs gs \<Longrightarrow> Filter gs = Inr gs' \<Longrightarrow> built goMaxProcs gs'"
| built_Peek: "built goMaxProcs gs \<Longrightarrow> Peek gs = Inr gs' \<Longrightarrow> built goMaxProcs gs'"
| built_Limit: "built goMaxProcs gs \<Longrightarrow> Limit gs = Inr gs' \<Longrightarrow> built goMaxProcs gs'"
| built_Skip: "built goMaxProcs gs \<Longrightarrow> Skip gs = Inr gs' \<Longrightarrow> built goMaxProcs gs'"
| built_Map: "built goMaxProcs gs \<Longrightarrow> Map_stream gs = Inr gs' \<Longrightarrow> built goMaxProcs gs'"
| built_FlatMap: "built goMaxProcs gs \<Longrightarrow> FlatMap_stream gs = Inr gs' \<Longrightarrow> built goMaxProcs gs'"
| built_Distinct: "built goMaxProcs gs \<Longrightarrow> Distinct_stream gs = Inr gs' \<Longrightarrow> built goMaxProcs gs'"
| built_Sorted: "built goMaxProcs gs \<Longrightarrow> Sorted_stream gs = Inr gs' \<Longrightarrow> built goMaxProcs gs'"
| built_Concat: "built goMaxProcs a \<Longrightarrow> built goMaxProcs b \<Longrightarrow> Concat_stream a b = Inr gs'
     \<Longrightarrow> built goMaxProcs gs'"
| built_close: "built goMaxProcs gs \<Longrightarrow> built goMaxProcs (close gs)"

section \<open>Pull links and producers\<close>


definition reply :: "('s \<Rightarrow> 'r \<times> 's) \<Rightarrow> 's \<Rightarrow> nat \<Rightarrow> 'r" where
  "reply serve s i = fst (serve (((\<lambda>s. snd (serve s)) ^^ i) s))"

text \<open>
  The goroutine of \<^verbatim>\<open>Of(data...)\<close>; its state is the index \<^verbatim>\<open>i\<close>:
  \<^verbatim>\<open>if i == len(data) { close(nextData); close(prevDone); ...; return }\<close>,
  \<^verbatim>\<open>if i < len(data) { nextData <- orderedData[T]{order: uint64(i), data: data[i]}; i++ }\<close>.
  After the close every receive finds the channel closed. (\<^verbatim>\<open>i\<close> starts at 0 and
  never exceeds the length; the last branch is not reached.)
\<close>

definition Of_serve :: "'a list \<Rightarrow> nat \<Rightarrow> 'a orderedData option \<times> nat" where
  "Of_serve xs i =
     (if i = length xs then (None, i)
      else if i < length xs then (Some \<lparr>order = of_nat i, data = xs ! i\<rparr>, i + 1)
      else (None, i))"

text \<open>
  The goroutine of \<^verbatim>\<open>Iterate(seed, f)\<close>; its state is \<^verbatim>\<open>useSeed\<close>, \<^verbatim>\<open>nextValue\<close>
  and \<^verbatim>\<open>order\<close>, a \<^verbatim>\<open>uint64\<close> incremented after every item.
\<close>

definition Iterate_serve ::
  "'a \<Rightarrow> ('a \<Rightarrow> 'a) \<Rightarrow> bool \<times> 'a \<times> 64 word \<Rightarrow> 'a orderedData option \<times> (bool \<times> 'a \<times> 64 word)" where
  "Iterate_serve seed f st =
     (case st of (useSeed, nextValue, ord) \<Rightarrow>
        if useSeed then (Some \<lparr>order = ord, data = seed\<rparr>, (False, nextValue, ord + 1))
        else let nextValue' = f nextValue
             in (Some \<lparr>order = ord, data = nextValue'\<rparr>, (False, nextValue', ord + 1)))"

definition Iterate_init :: "'a \<Rightarrow> bool \<times> 'a \<times> 64 word" where
  "Iterate_init seed = (True, seed, 0)"

text \<open>
  The goroutine of \<^verbatim>\<open>Generate(s)\<close>. The supplier may have a state of its own (a random
  number generator, say): it is a function from that state to a value and the next state.
\<close>

definition Generate_serve ::
  "('g \<Rightarrow> 'a \<times> 'g) \<Rightarrow> 'g \<times> 64 word \<Rightarrow> 'a orderedData option \<times> ('g \<times> 64 word)" where
  "Generate_serve s st =
     (case st of (g, ord) \<Rightarrow>
        (case s g of (v, g') \<Rightarrow> (Some \<lparr>order = ord, data = v\<rparr>, (g', ord + 1))))"

text \<open>
  \<open>emits serve s xs\<close>: from state \<open>s\<close> the link answers the next requests with the items
  \<open>xs\<close>, in this order, and the request after them by closing its data channel.
\<close>

fun emits :: "('s \<Rightarrow> 'r option \<times> 's) \<Rightarrow> 's \<Rightarrow> 'r list \<Rightarrow> bool" where
  "emits serve s [] = (fst (serve s) = None)"
| "emits serve s (x # xs) = (fst (serve s) = Some x \<and> emits serve (snd (serve s)) xs)"

text \<open>The items \<^verbatim>\<open>Of(data...)\<close> sends: \<^verbatim>\<open>orderedData{order: uint64(i), data: data[i]}\<close>.\<close>

definition Of_items :: "'a list \<Rightarrow> 'a orderedData list" where
  "Of_items xs = map (\<lambda>i. \<lparr>order = of_nat i, data = xs ! i\<rparr>) [0..<length xs]"

section \<open>Workers of the intermediate stages\<close>

text \<open>
  A worker goroutine of a stage, between two requests from downstream: the state of the
  upstream link it pulls from, the number of requests it has sent upstream, and whether it
  has called \<^verbatim>\<open>close()\<close> and returned. Each \<open>_serve\<close> function below is one iteration
  of the worker's loop \<^verbatim>\<open>for gs.getNextReq() { ... }\<close>; a worker that has returned leaves
  the data channel closed.
\<close>

record 'u worker =
  ups :: 'u
  prevReqs :: nat
  returned :: bool

text \<open>\<^verbatim>\<open>getPrevData\<close>: one request upstream, one reply.\<close>

definition getPrevData ::
  "('u \<Rightarrow> 'r \<times> 'u) \<Rightarrow> ('u, 'z) worker_scheme \<Rightarrow> 'r \<times> ('u, 'z) worker_scheme" where
  "getPrevData up w =
     (case up (ups w) of (r, u') \<Rightarrow> (r, w\<lparr>ups := u', prevReqs := prevReqs w + 1\<rparr>))"

text \<open>
  \<^verbatim>\<open>limit(maxSize)\<close>: panics on a negative argument, closes at once on 0, and otherwise
  forwards items, counting down, and closes when the count reaches 0.
\<close>

record 'u limit_worker = "'u worker" +
  count :: int

definition limit :: "int \<Rightarrow> 'u \<Rightarrow> panic + 'u limit_worker" where
  "limit maxSize u =
     (if maxSize < 0 then Inl (PanicMaxSizeNegative maxSize)
      else if maxSize = 0 then Inr \<lparr>ups = u, prevReqs = 0, returned = True, count = maxSize\<rparr>
      else Inr \<lparr>ups = u, prevReqs = 0, returned = False, count = maxSize\<rparr>)"

definition limit_serve ::
  "('u \<Rightarrow> 'r option \<times> 'u) \<Rightarrow> 'u limit_worker \<Rightarrow> 'r option \<times> 'u limit_worker" where
  "limit_serve up w =
     (if returned w then (None, w)
      else case getPrevData up w of
             (None, w') \<Rightarrow> (None, w'\<lparr>returned := True\<rparr>)
           | (Some d, w') \<Rightarrow>
               (let w'' = w'\<lparr>count := count w' - 1\<rparr>
                in (Some d, if count w'' = 0 then w''\<lparr>returned := True\<rparr> else w'')))"

text \<open>
  \<^verbatim>\<open>skip(n)\<close>: on a request, first discards upstream items while \<^verbatim>\<open>n > 0\<close>, then
  forwards one item.
\<close>

record 'u skip_worker = "'u worker" +
  skipN :: int

definition skip :: "int \<Rightarrow> 'u \<Rightarrow> 'u skip_worker" where
  "skip n u = \<lparr>ups = u, prevReqs = 0, returned = False, skipN = n\<rparr>"

function skip_discard ::
  "('u \<Rightarrow> 'r option \<times> 'u) \<Rightarrow> 'u skip_worker \<Rightarrow> bool \<times> 'u skip_worker" where
  "skip_discard up w =
     (if skipN w > 0
      then (case getPrevData up w of
              (None, w') \<Rightarrow> (False, w'\<lparr>returned := True\<rparr>)
            | (Some _, w') \<Rightarrow> skip_discard up (w'\<lparr>skipN := skipN w' - 1\<rparr>))
      else (True, w))"
  by pat_completeness auto
termination
  by (relation "measure (\<lambda>(up, w). nat (skipN w))")
     (auto simp: getPrevData_def split: prod.splits)

declare skip_discard.simps [simp del]

definition skip_serve ::
  "('u \<Rightarrow> 'r option \<times> 'u) \<Rightarrow> 'u skip_worker \<Rightarrow> 'r option \<times> 'u skip_worker" where
  "skip_serve up w =
     (if returned w then (None, w)
      else case skip_discard up w of
             (False, w') \<Rightarrow> (None, w')
           | (True, w') \<Rightarrow>
               (case getPrevData up w' of
                  (None, w'') \<Rightarrow> (None, w''\<lparr>returned := True\<rparr>)
                | (Some d, w'') \<Rightarrow> (Some d, w'')))"

section \<open>Terminal operations\<close>

text \<open>
  \<^verbatim>\<open>terminalOpOrderedData\<close> and \<^verbatim>\<open>terminalOp\<close>: request and receive until the data
  channel is closed, applying \<^verbatim>\<open>op\<close> (whose effect on the variables it captures is the
  accumulator \<open>c\<close>) to every item. On a link that never closes the loop does not return.
\<close>

partial_function (option) terminalOpOrderedData ::
  "('s \<Rightarrow> 'a orderedData option \<times> 's) \<Rightarrow> ('c \<Rightarrow> 'a orderedData \<Rightarrow> 'c) \<Rightarrow> 's \<Rightarrow> 'c \<Rightarrow> ('c \<times> 's) option"
where
  "terminalOpOrderedData serve op s c =
     (case serve s of
        (None, s') \<Rightarrow> Some (c, s')
      | (Some od, s') \<Rightarrow> terminalOpOrderedData serve op s' (op c od))"



text \<open>
  \<^verbatim>\<open>sort.Slice\<close> belongs to the Go standard library. \<^verbatim>\<open>ToSlice\<close> takes it as a
  parameter: a function that returns a permutation of its argument in which no item's
  \<^verbatim>\<open>order\<close> is less than that of an item before it.
\<close>

definition sorts_by_order :: "('a orderedData list \<Rightarrow> 'a orderedData list) \<Rightarrow> bool" where
  "sorts_by_order sortSlice \<longleftrightarrow>
     (\<forall>ods. mset (sortSlice ods) = mset ods \<and>
            sorted_wrt (\<lambda>a b. \<not> order b < order a) (sortSlice ods))"

text \<open>
  The second half of \<^verbatim>\<open>ToSlice\<close>: append the workers' slices in the order they arrive
  on the \<^verbatim>\<open>results\<close> channel, sort by \<^verbatim>\<open>order\<close>, copy the data.
\<close>

definition combine ::
  "('a orderedData list \<Rightarrow> 'a orderedData list) \<Rightarrow> 'a orderedData list list \<Rightarrow> 'a list" where
  "combine sortSlice results = map data (sortSlice (foldl (@) [] results))"

definition ToSlice ::
  "('a orderedData list \<Rightarrow> 'a orderedData list) \<Rightarrow> genericStream \<Rightarrow>
   'a orderedData list list \<Rightarrow> panic + 'a list" where
  "ToSlice sortSlice gs results =
     (case validateState gs of
        Inl p \<Rightarrow> Inl p
      | Inr _ \<Rightarrow> Inr (combine sortSlice results))"

text \<open>\<^verbatim>\<open>ToSlice\<close> on a stream with one worker.\<close>

definition ToSlice_sequential ::
  "('a orderedData list \<Rightarrow> 'a orderedData list) \<Rightarrow> genericStream \<Rightarrow>
   ('s \<Rightarrow> 'a orderedData option \<times> 's) \<Rightarrow> 's \<Rightarrow> (panic + 'a list) option" where
  "ToSlice_sequential sortSlice gs serve s =
     (case validateState gs of
        Inl p \<Rightarrow> Some (Inl p)
      | Inr _ \<Rightarrow>
          (case terminalOpOrderedData serve (\<lambda>ods od. ods @ [od]) s [] of
             None \<Rightarrow> None
           | Some (ods, _) \<Rightarrow> Some (ToSlice sortSlice gs [ods])))"



text \<open>\<^verbatim>\<open>Of(xs...).Skip(n).Limit(m).ToSlice()\<close>\<close>

definition Of_Skip_Limit_ToSlice ::
  "('a orderedData list \<Rightarrow> 'a orderedData list) \<Rightarrow> 'a list \<Rightarrow> int \<Rightarrow> int \<Rightarrow> (panic + 'a list) option"
where
  "Of_Skip_Limit_ToSlice sortSlice xs n m =
     (case Skip Of_stream of
        Inl p \<Rightarrow> Some (Inl p)
      | Inr gs1 \<Rightarrow>
          (case Limit gs1 of
             Inl p \<Rightarrow> Some (Inl p)
           | Inr gs2 \<Rightarrow>
               (case limit m (skip n (0::nat)) of
                  Inl p \<Rightarrow> Some (Inl p)
                | Inr w \<Rightarrow>
                    ToSlice_sequential sortSlice gs2
                      (limit_serve (skip_serve (Of_serve xs))) w)))"

text \<open>
  \<^verbatim>\<open>terminalOpMatch\<close>: as \<^verbatim>\<open>terminalOp\<close>, but stops requesting as soon as
  \<^verbatim>\<open>match\<close> returns false. The accumulator \<open>g\<close> is the state \<^verbatim>\<open>match\<close> works on.
  The link here may leave a request without any reply (\<open>None\<close>): the receive then blocks
  for ever and the function does not return.
\<close>

partial_function (option) terminalOpMatch ::
  "('s \<Rightarrow> ('a orderedData option \<times> 's) option) \<Rightarrow> ('g \<Rightarrow> 'a \<Rightarrow> bool \<times> 'g) \<Rightarrow> 's \<Rightarrow> 'g \<Rightarrow>
   ('g \<times> 's) option"
where
  "terminalOpMatch serve match s g =
     (case serve s of
        None \<Rightarrow> None
      | Some (None, s') \<Rightarrow> Some (g, s')
      | Some (Some od, s') \<Rightarrow>
          (case match g (data od) of
             (continue, g') \<Rightarrow>
               if continue then terminalOpMatch serve match s' g' else Some (g', s')))"

text \<open>
  Several goroutines in \<^verbatim>\<open>terminalOpMatch\<close> on the same link, sharing the state of
  \<^verbatim>\<open>match\<close>, run by a schedule: at each step the named worker, unless it is done, sends
  a request, receives the reply and calls \<^verbatim>\<open>match\<close> on it.
\<close>

fun run_match_workers ::
  "('s \<Rightarrow> 'a orderedData option \<times> 's) \<Rightarrow> ('g \<Rightarrow> 'a \<Rightarrow> bool \<times> 'g) \<Rightarrow> nat list \<Rightarrow>
   's \<Rightarrow> 'g \<Rightarrow> bool list \<Rightarrow> 's \<times> 'g \<times> bool list" where
  "run_match_workers serve match [] s g ds = (s, g, ds)"
| "run_match_workers serve match (w # sched) s g ds =
     (if w < length ds \<and> \<not> ds ! w
      then (case serve s of
              (None, s') \<Rightarrow> run_match_workers serve match sched s' g (ds[w := True])
            | (Some od, s') \<Rightarrow>
                (case match g (data od) of
                   (continue, g') \<Rightarrow>
                     run_match_workers serve match sched s' g' (ds[w := \<not> continue])))
      else run_match_workers serve match sched s g ds)"

text \<open>
  The closures of the match family. Their state is the shared flag \<^verbatim>\<open>matched\<close> and
  whatever state \<open>p\<close> the caller's predicate works on; the predicate is a function of that
  state, so that a call of it can be told from no call.
\<close>

definition anyMatch_fn :: "('p \<Rightarrow> 'a \<Rightarrow> bool \<times> 'p) \<Rightarrow> int \<times> 'p \<Rightarrow> 'a \<Rightarrow> bool \<times> (int \<times> 'p)" where
  "anyMatch_fn predicate g t =
     (case g of (matched, p) \<Rightarrow>
        if matched = 1 then (False, (matched, p))
        else (case predicate p t of
                (b, p') \<Rightarrow> if \<not> b then (True, (matched, p')) else (False, (1, p'))))"

definition allMatch_fn :: "('p \<Rightarrow> 'a \<Rightarrow> bool \<times> 'p) \<Rightarrow> int \<times> 'p \<Rightarrow> 'a \<Rightarrow> bool \<times> (int \<times> 'p)" where
  "allMatch_fn predicate g t =
     (case g of (matched, p) \<Rightarrow>
        if matched = 0 then (False, (matched, p))
        else (case predicate p t of
                (b, p') \<Rightarrow> if b then (True, (matched, p')) else (False, (0, p'))))"

text \<open>
  \<^verbatim>\<open>AnyMatch\<close>, \<^verbatim>\<open>AllMatch\<close>, \<^verbatim>\<open>NoneMatch\<close>: \<^verbatim>\<open>parallelCount\<close> workers, then the
  flag is read. The result, with the final state of the predicate, is there once every
  worker is done.
\<close>

definition match_workers ::
  "genericStream \<Rightarrow> ('s \<Rightarrow> 'a orderedData option \<times> 's) \<Rightarrow> ('g \<Rightarrow> 'a \<Rightarrow> bool \<times> 'g) \<Rightarrow>
   's \<Rightarrow> 'g \<Rightarrow> nat list \<Rightarrow> 'g option" where
  "match_workers gs serve match s g sched =
     (case run_match_workers serve match sched s g (replicate (nat (parallelCount gs)) False) of
        (_, g', ds) \<Rightarrow> if list_all (\<lambda>d. d) ds then Some g' else None)"

definition AnyMatch ::
  "genericStream \<Rightarrow> ('s \<Rightarrow> 'a orderedData option \<times> 's) \<Rightarrow> 's \<Rightarrow> ('p \<Rightarrow> 'a \<Rightarrow> bool \<times> 'p) \<Rightarrow> 'p \<Rightarrow>
   nat list \<Rightarrow> (panic + bool \<times> 'p) option" where
  "AnyMatch gs serve s predicate p sched =
     (case validateState gs of
        Inl e \<Rightarrow> Some (Inl e)
      | Inr _ \<Rightarrow>
          (case match_workers gs serve (anyMatch_fn predicate) s (0, p) sched of
             None \<Rightarrow> None
           | Some (matched, p') \<Rightarrow> Some (Inr (matched = 1, p'))))"

definition AllMatch ::
  "genericStream \<Rightarrow> ('s \<Rightarrow> 'a orderedData option \<times> 's) \<Rightarrow> 's \<Rightarrow> ('p \<Rightarrow> 'a \<Rightarrow> bool \<times> 'p) \<Rightarrow> 'p \<Rightarrow>
   nat list \<Rightarrow> (panic + bool \<times> 'p) option" where
  "AllMatch gs serve s predicate p sched =
     (case validateState gs of
        Inl e \<Rightarrow> Some (Inl e)
      | Inr _ \<Rightarrow>
          (case match_workers gs serve (allMatch_fn predicate) s (1, p) sched of
             None \<Rightarrow> None
           | Some (matched, p') \<Rightarrow> Some (Inr (matched = 1, p'))))"

definition NoneMatch ::
  "genericStream \<Rightarrow> ('s \<Rightarrow> 'a orderedData option \<times> 's) \<Rightarrow> 's \<Rightarrow> ('p \<Rightarrow> 'a \<Rightarrow> bool \<times> 'p) \<Rightarrow> 'p \<Rightarrow>
   nat list \<Rightarrow> (panic + bool \<times> 'p) option" where
  "NoneMatch gs serve s predicate p sched =
     (case validateState gs of
        Inl e \<Rightarrow> Some (Inl e)
      | Inr _ \<Rightarrow>
          (case match_workers gs serve (anyMatch_fn predicate) s (0, p) sched of
             None \<Rightarrow> None
           | Some (matched, p') \<Rightarrow> Some (Inr (matched \<noteq> 1, p'))))"

text \<open>\<^verbatim>\<open>Empty()\<close> closes its data channel when it is made.\<close>

definition Empty_serve :: "unit \<Rightarrow> 'a orderedData option \<times> unit" where
  "Empty_serve s = (None, s)"






text \<open>
  The stage made by \<^verbatim>\<open>Parallel()\<close>, seen by a consumer that has one request
  outstanding at a time, as \<^verbatim>\<open>terminalOpMatch\<close> in \<^verbatim>\<open>FindFirst\<close> has.
  \<^verbatim>\<open>parallelCount\<close> workers run \<^verbatim>\<open>drain\<close> on the same stage and wait in
  \<^verbatim>\<open>getNextReq\<close>; one of them takes the request, and as they run the same code on the
  same state, which one does not matter. It calls \<^verbatim>\<open>getPrevData\<close>: an item is
  forwarded; on a closed upstream the worker calls \<^verbatim>\<open>close()\<close> and returns. If that
  call leaves \<^verbatim>\<open>parallelCount > 0\<close>, the data channel of the stage stays open and the
  consumer goes on waiting. The other workers are in the \<^verbatim>\<open>select\<close> of
  \<^verbatim>\<open>getNextReq\<close> with no request pending: they leave it, and call \<^verbatim>\<open>close()\<close> in
  turn, only through \<^verbatim>\<open>prevDone\<close>, which \<^verbatim>\<open>Of\<close> closes together with its data channel
  and which is nil in every stream that does not descend from \<^verbatim>\<open>Of\<close> by
  \<^verbatim>\<open>newGenericStream\<close>. With a nil \<^verbatim>\<open>prevDone\<close> no goroutine can move any more and the
  consumer gets no reply.
\<close>

definition drain_serve ::
  "('u \<Rightarrow> 'a orderedData option \<times> 'u) \<Rightarrow> genericStream \<times> 'u \<Rightarrow>
   ('a orderedData option \<times> (genericStream \<times> 'u)) option" where
  "drain_serve up st =
     (case st of (gs, u) \<Rightarrow>
        if closed gs then Some (None, st)
        else (case up u of
                (Some od, u') \<Rightarrow> Some (Some od, (gs, u'))
              | (None, u') \<Rightarrow>
                  (let gs' = close gs
                   in if closed gs' then Some (None, (gs', u'))
                      else if prevDone gs'
                           then Some (None, ((close ^^ nat (parallelCount gs')) gs', u'))
                           else None)))"

text \<open>
  \<^verbatim>\<open>FindFirst\<close>: one \<^verbatim>\<open>terminalOpMatch\<close> whose closure records the item and returns
  false. The pair \<^verbatim>\<open>foundAny\<close>, \<^verbatim>\<open>result\<close> and the \<^verbatim>\<open>Optional\<close> made of it are an
  \<open>option\<close>. (\<^verbatim>\<open>terminalCloseCount\<close>, set to 1, only tells \<^verbatim>\<open>terminalClose\<close> to close
  the request channel afterwards.)
\<close>

definition FindFirst ::
  "genericStream \<Rightarrow> ('s \<Rightarrow> ('a orderedData option \<times> 's) option) \<Rightarrow> 's \<Rightarrow> (panic + 'a option) option"
where
  "FindFirst gs serve s =
     (case validateState gs of
        Inl p \<Rightarrow> Some (Inl p)
      | Inr _ \<Rightarrow>
          (case terminalOpMatch serve (\<lambda>_ t. (False, Some t)) s None of
             None \<Rightarrow> None
           | Some (result, _) \<Rightarrow> Some (Inr result)))"

text \<open>
  As \<open>emits\<close>, for a link that may leave a request without reply: every request here gets
  its reply.
\<close>

fun emitsP :: "('s \<Rightarrow> ('r option \<times> 's) option) \<Rightarrow> 's \<Rightarrow> 'r list \<Rightarrow> bool" where
  "emitsP serve s [] = (case serve s of Some (None, _) \<Rightarrow> True | _ \<Rightarrow> False)"
| "emitsP serve s (x # xs) =
     (case serve s of Some (Some y, s') \<Rightarrow> y = x \<and> emitsP serve s' xs | _ \<Rightarrow> False)"

text \<open>
  The goroutine of \<^verbatim>\<open>FlatMap\<close>. \<^verbatim>\<open>rgs\<close> is the nested stream being drained, as the
  state of its link (\<open>nserve\<close> is the link of the nested streams, \<open>mapper\<close> gives the state
  a nested stream starts in). On a request the worker loops: with no nested stream open
  it pulls an upstream item and opens one; it requests the nested stream; an item is
  sent on with \<^verbatim>\<open>offset\<close> added to its number and ends the loop, the end of the nested
  stream adds \<^verbatim>\<open>lastOrder + 1\<close> to \<^verbatim>\<open>offset\<close> and the loop goes on. The loop does not
  end when the upstream goes on for ever with items whose nested streams are empty.
\<close>

record ('u, 'n) flatmap_worker = "'u worker" +
  rgs :: "'n option"
  offset :: "64 word"
  lastOrder :: "64 word"

definition FlatMap_start :: "'u \<Rightarrow> ('u, 'n) flatmap_worker" where
  "FlatMap_start u =
     \<lparr>ups = u, prevReqs = 0, returned = False, rgs = None, offset = 0, lastOrder = 0\<rparr>"

partial_function (option) FlatMap_serve ::
  "('u \<Rightarrow> 'a orderedData option \<times> 'u) \<Rightarrow> ('a \<Rightarrow> 'n) \<Rightarrow> ('n \<Rightarrow> 'r orderedData option \<times> 'n) \<Rightarrow>
   ('u, 'n) flatmap_worker \<Rightarrow> ('r orderedData option \<times> ('u, 'n) flatmap_worker) option"
where
  "FlatMap_serve up mapper nserve w =
     (if returned w then Some (None, w)
      else (case rgs w of
              None \<Rightarrow>
                (case getPrevData up w of
                   (None, w') \<Rightarrow> Some (None, w'\<lparr>returned := True\<rparr>)
                 | (Some od, w') \<Rightarrow>
                     FlatMap_serve up mapper nserve (w'\<lparr>rgs := Some (mapper (data od))\<rparr>))
            | Some r \<Rightarrow>
                (case nserve r of
                   (None, r') \<Rightarrow>
                     FlatMap_serve up mapper nserve
                       (w\<lparr>rgs := None, offset := offset w + lastOrder w + 1\<rparr>)
                 | (Some it, r') \<Rightarrow>
                     Some (Some \<lparr>order = order it + offset w, data = data it\<rparr>,
                           w\<lparr>rgs := Some r', lastOrder := order it\<rparr>))))"

text \<open>
  The renumbering in the spec's words: the nested sequences one after the other, each
  item's number raised by the offset, and the offset raised by \<open>lastOrder + 1\<close> at the end
  of each nested sequence, \<open>lastOrder\<close> being the number of the last item sent on so far.
\<close>

fun renumber :: "64 word \<Rightarrow> 64 word \<Rightarrow> 'r orderedData list list \<Rightarrow> 'r orderedData list" where
  "renumber off lo [] = []"
| "renumber off lo (ns # nss) =
     map (\<lambda>it. \<lparr>order = order it + off, data = data it\<rparr>) ns @
     (let lo' = (if ns = [] then lo else order (last ns))
      in renumber (off + lo' + 1) lo' nss)"

text \<open>No addition of the renumbering wraps around in \<^verbatim>\<open>uint64\<close>.\<close>

fun no_wrap :: "64 word \<Rightarrow> 64 word \<Rightarrow> 'r orderedData list list \<Rightarrow> bool" where
  "no_wrap off lo [] = True"
| "no_wrap off lo (ns # nss) =
     (list_all (\<lambda>it. unat (order it) + unat off < 2 ^ 64) ns \<and>
      (let lo' = (if ns = [] then lo else order (last ns))
       in unat off + unat lo' + 1 < 2 ^ 64 \<and> no_wrap (off + lo' + 1) lo' nss))"

text \<open>A nested stream made by \<^verbatim>\<open>Of\<close>: the link of \<^verbatim>\<open>Of\<close> with its data in the state.\<close>

definition Of_nested :: "'a list \<times> nat \<Rightarrow> 'a orderedData option \<times> ('a list \<times> nat)" where
  "Of_nested st = (case st of (xs, i) \<Rightarrow> (case Of_serve xs i of (r, i') \<Rightarrow> (r, (xs, i'))))"

section \<open>Properties\<close>

subsection \<open>The ordered flag is never set\<close>

lemma built_not_ordered: "built m gs \<Longrightarrow> \<not> ordered gs"
proof (induction rule: built.induct)
  case (built_Concat a b gs')
  then show ?case
    by (auto simp: Concat_stream_def single_stream_def split: sum.splits)
next
  case (built_close gs)
  then show ?case by (simp add: close_def Let_def)
qed (auto simp: Of_stream_def single_stream_def Parallel_def Filter_def Peek_def Limit_def
      Skip_def Map_stream_def FlatMap_stream_def Distinct_stream_def Sorted_stream_def
      newGenericStream_def split: sum.splits if_splits)

text \<open>
  C10. On a stream that is not closed, \<^verbatim>\<open>Close()\<close> panics with the message
  "Not Implemented Yet" and leaves the stream as it was: nothing is closed.
\<close>

theorem Close_not_implemented:
  "\<not> closed gs \<Longrightarrow> Close gs = (Inl (Panic ''Not Implemented Yet''), gs)"
  by (simp add: Close_def validateState_def)

theorem Close_not_implemented_witness:
  "\<not> closed Of_stream \<and> Close Of_stream = (Inl (Panic ''Not Implemented Yet''), Of_stream)"
  using Close_not_implemented [of Of_stream] by (simp add: Of_stream_def)

text \<open>
  C9, as the code has it. \<^verbatim>\<open>Limit\<close> and \<^verbatim>\<open>Skip\<close> panic on an open stage that is
  ordered and has more than one worker; but no constructor or operation of the library
  sets \<^verbatim>\<open>ordered\<close>, so on every stream that can be built, parallel or not, the check
  does not fire: both return a stage with exactly one worker.
\<close>

theorem Limit_Skip_ordered_check:
  "(\<not> closed gs \<and> ordered gs \<and> parallelCount gs > 1 \<longrightarrow>
      Limit gs = Inl (Panic ''Limit doesn't support ordered parallel stream'') \<and>
      Skip gs = Inl (Panic ''Skip doesn't support ordered parallel stream'')) \<and>
   (built m gs \<and> \<not> closed gs \<longrightarrow>
      (\<exists>gs'. Limit gs = Inr gs' \<and> parallelCount gs' = 1) \<and>
      (\<exists>gs'. Skip gs = Inr gs' \<and> parallelCount gs' = 1))"
proof -
  have "built m gs \<Longrightarrow> \<not> ordered gs" by (rule built_not_ordered)
  then show ?thesis
    by (auto simp: Limit_def Skip_def validateState_def)
qed

theorem Limit_Skip_ordered_check_witness:
  "(Limit (Of_stream\<lparr>parallelCount := 4, ordered := True\<rparr>) =
      Inl (Panic ''Limit doesn't support ordered parallel stream'') \<and>
    Skip (Of_stream\<lparr>parallelCount := 4, ordered := True\<rparr>) =
      Inl (Panic ''Skip doesn't support ordered parallel stream'')) \<and>
   built 4 Of_stream \<and> \<not> closed Of_stream \<and>
   (\<exists>gs'. Limit Of_stream = Inr gs' \<and> parallelCount gs' = 1) \<and>
   (\<exists>gs'. Skip Of_stream = Inr gs' \<and> parallelCount gs' = 1)"
  using Limit_Skip_ordered_check [of "Of_stream\<lparr>parallelCount := 4, ordered := True\<rparr>" 4]
    Limit_Skip_ordered_check [of Of_stream 4] built_Of [of 4]
  by (simp add: Of_stream_def)

text \<open>
  The claim as stated fails: \<^verbatim>\<open>Of(...).Parallel()\<close> with four workers is a
  multi-worker stage built from the library's constructor followed by \<^verbatim>\<open>Parallel()\<close>,
  and neither \<^verbatim>\<open>Limit\<close> nor \<^verbatim>\<open>Skip\<close> panics on it.
\<close>

theorem Limit_Skip_parallel_no_panic:
  "Parallel 4 Of_stream =
     Inr \<lparr>closed = False, parallel = True, parallelCount = 4, ordered = False,
          terminalCloseCount = 4, prevDone = True\<rparr> \<and>
   Limit \<lparr>closed = False, parallel = True, parallelCount = 4, ordered = False,
          terminalCloseCount = 4, prevDone = True\<rparr> =
     Inr \<lparr>closed = False, parallel = True, parallelCount = 1, ordered = False,
          terminalCloseCount = 4, prevDone = True\<rparr> \<and>
   Skip \<lparr>closed = False, parallel = True, parallelCount = 4, ordered = False,
          terminalCloseCount = 4, prevDone = True\<rparr> =
     Inr \<lparr>closed = False, parallel = True, parallelCount = 1, ordered = False,
          terminalCloseCount = 4, prevDone = True\<rparr>"
  by (simp add: Parallel_def Limit_def Skip_def validateState_def Of_stream_def
      newGenericStream_def)

subsection \<open>Sequence numbers of the producers\<close>

lemma Of_state: "i \<le> length xs \<Longrightarrow> ((\<lambda>s. snd (Of_serve xs s)) ^^ i) 0 = i"
  by (induction i) (auto simp: Of_serve_def)

lemma Iterate_state:
  "snd (snd (((\<lambda>s. snd (Iterate_serve seed f s)) ^^ i) (Iterate_init seed))) = of_nat i"
  by (induction i) (auto simp: Iterate_serve_def Iterate_init_def Let_def split: prod.splits)

lemma Generate_state:
  "snd (((\<lambda>st. snd (Generate_serve s st)) ^^ i) (g, 0)) = of_nat i"
  by (induction i) (auto simp: Generate_serve_def split: prod.splits)

lemma unat_index: "i < 2 ^ 64 \<Longrightarrow> unat (of_nat i :: 64 word) = i"
  by (simp add: unat_of_nat)

text \<open>
  C2. The reply of \<^verbatim>\<open>Of\<close>, \<^verbatim>\<open>Iterate\<close> and \<^verbatim>\<open>Generate\<close> to request number
  \<open>i\<close> (counted from 0) carries sequence number \<open>i\<close>, for every \<open>i\<close> a
  \<^verbatim>\<open>uint64\<close> holds; the numbers are therefore strictly increasing from 0.
\<close>

theorem producer_sequence_numbers:
  assumes "i < 2 ^ 64"
  shows "(i < length xs \<longrightarrow>
            (\<exists>od. reply (Of_serve xs) 0 i = Some od \<and> unat (order od) = i \<and> data od = xs ! i)) \<and>
         (\<exists>od. reply (Iterate_serve seed f) (Iterate_init seed) i = Some od \<and> unat (order od) = i) \<and>
         (\<exists>od. reply (Generate_serve s) (g, 0) i = Some od \<and> unat (order od) = i)"
proof (intro conjI impI)
  assume i: "i < length xs"
  then have "reply (Of_serve xs) 0 i = fst (Of_serve xs i)"
    by (simp add: reply_def Of_state)
  then show "\<exists>od. reply (Of_serve xs) 0 i = Some od \<and> unat (order od) = i \<and> data od = xs ! i"
    using assms i by (simp add: Of_serve_def unat_index)
next
  obtain a b c where st:
    "((\<lambda>s. snd (Iterate_serve seed f s)) ^^ i) (Iterate_init seed) = (a, b, c)"
    by (metis prod_cases3)
  have "c = of_nat i" using Iterate_state [where seed = seed and f = f and i = i] st by simp
  then have "reply (Iterate_serve seed f) (Iterate_init seed) i =
      fst (Iterate_serve seed f (a, b, of_nat i))"
    using st by (simp add: reply_def)
  then show "\<exists>od. reply (Iterate_serve seed f) (Iterate_init seed) i = Some od \<and> unat (order od) = i"
    using assms by (simp add: Iterate_serve_def Let_def unat_index)
next
  obtain g' b where st: "((\<lambda>st. snd (Generate_serve s st)) ^^ i) (g, 0) = (g', b)"
    by (metis surj_pair)
  have "b = of_nat i" using Generate_state [where s = s and i = i and g = g] st by simp
  then have "reply (Generate_serve s) (g, 0) i = fst (Generate_serve s (g', of_nat i))"
    using st by (simp add: reply_def)
  then show "\<exists>od. reply (Generate_serve s) (g, 0) i = Some od \<and> unat (order od) = i"
    using assms by (simp add: Generate_serve_def unat_index split: prod.splits)
qed

theorem producer_sequence_numbers_witness:
  "(2::nat) < 2 ^ 64 \<and> 2 < length [''a'', ''b'', ''c''] \<and>
   reply (Of_serve [''a'', ''b'', ''c'']) 0 2 = Some \<lparr>order = 2, data = ''c''\<rparr> \<and>
   reply (Iterate_serve (1::int) (\<lambda>v. v + 1)) (Iterate_init 1) 2 = Some \<lparr>order = 2, data = 3\<rparr> \<and>
   reply (Generate_serve (\<lambda>g::nat. (g * g, g + 1))) (5, 0) 2 = Some \<lparr>order = 2, data = 49\<rparr>"
proof -
  have h: "(2::nat) < 2 ^ 64" by simp
  have two: "(2::nat) = Suc (Suc 0)" by simp
  have a: "reply (Of_serve [''a'', ''b'', ''c'']) 0 2 = Some \<lparr>order = 2, data = ''c''\<rparr>"
    unfolding reply_def two by (simp add: Of_serve_def)
  have b: "reply (Iterate_serve (1::int) (\<lambda>v. v + 1)) (Iterate_init 1) 2 =
      Some \<lparr>order = 2, data = 3\<rparr>"
    unfolding reply_def two by (simp add: Iterate_serve_def Iterate_init_def)
  have c: "reply (Generate_serve (\<lambda>g::nat. (g * g, g + 1))) (5, 0) 2 =
      Some \<lparr>order = 2, data = 49\<rparr>"
    unfolding reply_def two by (simp add: Generate_serve_def)
  show ?thesis
    using producer_sequence_numbers [OF h, where xs = "[''a'', ''b'', ''c'']" and seed = "1::int"
        and f = "\<lambda>v. v + 1" and s = "\<lambda>g::nat. (g * g, g + 1)" and g = 5] a b c
    by simp
qed

subsection \<open>What the workers emit\<close>

lemma Of_emits_from:
  "i \<le> length xs \<Longrightarrow>
   emits (Of_serve xs) i (map (\<lambda>k. \<lparr>order = of_nat k, data = xs ! k\<rparr>) [i..<length xs])"
proof (induction "length xs - i" arbitrary: i)
  case 0
  then show ?case by (simp add: Of_serve_def)
next
  case (Suc d)
  then have lt: "i < length xs" by simp
  then have "[i..<length xs] = i # [Suc i..<length xs]" by (simp add: upt_conv_Cons)
  moreover have "emits (Of_serve xs) (Suc i)
      (map (\<lambda>k. \<lparr>order = of_nat k, data = xs ! k\<rparr>) [Suc i..<length xs])"
    using Suc lt by (intro Suc.hyps(1)) auto
  ultimately show ?case using lt by (simp add: Of_serve_def)
qed

lemma Of_emits: "emits (Of_serve xs) 0 (Of_items xs)"
  unfolding Of_items_def using Of_emits_from [of 0 xs] by simp

lemma emits_terminalOpOrderedData:
  "emits serve s xs \<Longrightarrow> \<exists>s'. terminalOpOrderedData serve op s c = Some (foldl op c xs, s')"
proof (induction xs arbitrary: s c)
  case Nil
  then show ?case
    by (subst terminalOpOrderedData.simps) (auto split: prod.splits)
next
  case (Cons x xs)
  then have "emits serve (snd (serve s)) xs" and "fst (serve s) = Some x" by auto
  with Cons.IH [of "snd (serve s)" "op c x"] show ?case
    by (subst terminalOpOrderedData.simps) (auto split: prod.splits)
qed


lemma returned_limit_emits: "returned w \<Longrightarrow> emits (limit_serve up) w []"
  by (simp add: limit_serve_def)

lemma limit_emits:
  "\<not> returned w \<Longrightarrow> count w > 0 \<Longrightarrow> emits up (ups w) xs \<Longrightarrow>
   emits (limit_serve up) w (take (nat (count w)) xs)"
proof (induction xs arbitrary: w)
  case Nil
  then show ?case
    by (auto simp: limit_serve_def getPrevData_def split: prod.splits option.splits)
next
  case (Cons x xs)
  obtain u' where up: "up (ups w) = (Some x, u')" and rest: "emits up u' xs"
    using Cons.prems(3) by (cases "up (ups w)") auto
  define w2 where "w2 = w\<lparr>ups := u', prevReqs := prevReqs w + 1, count := count w - 1\<rparr>"
  show ?case
  proof (cases "count w = 1")
    case True
    then have "limit_serve up w = (Some x, w2\<lparr>returned := True\<rparr>)"
      using Cons.prems up by (simp add: limit_serve_def getPrevData_def w2_def Let_def)
    then show ?thesis using True by (simp add: limit_serve_def)
  next
    case False
    then have s: "limit_serve up w = (Some x, w2)"
      using Cons.prems up by (simp add: limit_serve_def getPrevData_def w2_def Let_def)
    have "emits (limit_serve up) w2 (take (nat (count w2)) xs)"
      using Cons.prems False rest by (intro Cons.IH) (auto simp: w2_def)
    moreover have "take (nat (count w)) (x # xs) = x # take (nat (count w2)) xs"
      using Cons.prems False by (simp add: w2_def take_Cons' nat_diff_distrib)
    ultimately show ?thesis using s by simp
  qed
qed

lemma skip_discard_emits:
  "emits up (ups w) xs \<Longrightarrow> \<not> returned w \<Longrightarrow>
   (case skip_discard up w of
      (ok, w') \<Rightarrow>
        (ok \<longrightarrow> \<not> returned w' \<and> skipN w' \<le> 0 \<and> emits up (ups w') (drop (nat (skipN w)) xs)) \<and>
        (\<not> ok \<longrightarrow> returned w' \<and> length xs < nat (skipN w)))"
proof (induction up w arbitrary: xs rule: skip_discard.induct)
  case (1 up w)
  show ?case
  proof (cases "skipN w > 0")
    case False
    then show ?thesis using "1.prems" by (subst skip_discard.simps) simp
  next
    case True
    show ?thesis
    proof (cases xs)
      case Nil
      then show ?thesis using True "1.prems"
        by (subst skip_discard.simps) (auto simp: getPrevData_def split: prod.splits option.splits)
    next
      case (Cons x xs')
      obtain u' where up: "up (ups w) = (Some x, u')" and rest: "emits up u' xs'"
        using "1.prems"(1) Cons by (cases "up (ups w)") auto
      define w1 where "w1 = w\<lparr>ups := u', prevReqs := prevReqs w + 1\<rparr>"
      have g: "getPrevData up w = (Some x, w1)" by (simp add: getPrevData_def up w1_def)
      have ih: "case skip_discard up (w1\<lparr>skipN := skipN w1 - 1\<rparr>) of
          (ok, w') \<Rightarrow>
            (ok \<longrightarrow> \<not> returned w' \<and> skipN w' \<le> 0 \<and>
               emits up (ups w') (drop (nat (skipN (w1\<lparr>skipN := skipN w1 - 1\<rparr>))) xs')) \<and>
            (\<not> ok \<longrightarrow> returned w' \<and> length xs' < nat (skipN (w1\<lparr>skipN := skipN w1 - 1\<rparr>)))"
        using "1.prems" rest by (intro "1.IH" [OF True g [symmetric] refl]) (auto simp: w1_def)
      have d: "drop (nat (skipN w)) xs = drop (nat (skipN w - 1)) xs'"
        using True Cons by (simp add: drop_Cons' nat_diff_distrib)
      have e: "skip_discard up w = skip_discard up (w1\<lparr>skipN := skipN w1 - 1\<rparr>)"
        using True g by (subst skip_discard.simps) simp
      show ?thesis using ih True Cons unfolding e d
        by (auto simp: w1_def split: prod.splits)
    qed
  qed
qed

lemma skip_discard_done: "skipN w \<le> 0 \<Longrightarrow> skip_discard up w = (True, w)"
  by (subst skip_discard.simps) simp

lemma skip_forward_emits:
  "\<not> returned w \<Longrightarrow> skipN w \<le> 0 \<Longrightarrow> emits up (ups w) xs \<Longrightarrow> emits (skip_serve up) w xs"
proof (induction xs arbitrary: w)
  case Nil
  then show ?case
    by (auto simp: skip_serve_def skip_discard_done getPrevData_def split: prod.splits option.splits)
next
  case (Cons x xs)
  obtain u' where up: "up (ups w) = (Some x, u')" and rest: "emits up u' xs"
    using Cons.prems(3) by (cases "up (ups w)") auto
  define w1 where "w1 = w\<lparr>ups := u', prevReqs := prevReqs w + 1\<rparr>"
  have s: "skip_serve up w = (Some x, w1)"
    using Cons.prems up by (simp add: skip_serve_def skip_discard_done getPrevData_def w1_def)
  have "emits (skip_serve up) w1 xs"
    using Cons.prems rest by (intro Cons.IH) (auto simp: w1_def)
  then show ?case using s by simp
qed

lemma skip_emits:
  assumes "emits up (ups w) xs" "\<not> returned w"
  shows "emits (skip_serve up) w (drop (nat (skipN w)) xs)"
proof -
  obtain ok w' where d: "skip_discard up w = (ok, w')" by (cases "skip_discard up w")
  note h = skip_discard_emits [OF assms, of ] 
  show ?thesis
  proof (cases ok)
    case False
    then have "returned w'" "length xs < nat (skipN w)" using h d by auto
    then show ?thesis using assms d False by (simp add: skip_serve_def)
  next
    case True
    then have w': "\<not> returned w'" "skipN w' \<le> 0"
      and e: "emits up (ups w') (drop (nat (skipN w)) xs)"
      using h d by auto
    have "skip_serve up w = skip_serve up w'"
      using assms d True w' by (simp add: skip_serve_def skip_discard_done)
    moreover have "emits (skip_serve up) w' (drop (nat (skipN w)) xs)"
      using w' e by (rule skip_forward_emits)
    ultimately show ?thesis
      by (cases "drop (nat (skipN w)) xs") simp_all
  qed
qed

subsection \<open>ToSlice restores the encounter order\<close>


lemma word_of_nat_mono64: "i \<le> j \<Longrightarrow> j < 2 ^ 64 \<Longrightarrow> (of_nat i :: 64 word) \<le> of_nat j"
  by (simp add: word_le_nat_alt unat_of_nat)

lemma word_of_nat_inj64: "i < 2 ^ 64 \<Longrightarrow> j < 2 ^ 64 \<Longrightarrow> (of_nat i :: 64 word) = of_nat j \<Longrightarrow> i = j"
  by (metis unat_index)

lemma order_Of_items: "map order (Of_items xs) = map of_nat [0..<length xs]"
  by (simp add: Of_items_def comp_def)

lemma data_Of_items: "map data (Of_items xs) = xs"
  by (simp add: Of_items_def comp_def map_nth)

lemma sorted_order_Of_items: "length xs < 2 ^ 64 \<Longrightarrow> sorted (map order (Of_items xs))"
  unfolding order_Of_items
  by (auto simp: sorted_iff_nth_mono intro!: word_of_nat_mono64)

lemma distinct_order_Of_items: "length xs < 2 ^ 64 \<Longrightarrow> distinct (map order (Of_items xs))"
  unfolding order_Of_items
  by (auto simp: distinct_map inj_on_def dest!: word_of_nat_inj64 [rotated 2])


lemma sorted_perm_unique:
  assumes ms: "mset ys = mset zs"
    and so: "sorted_wrt (\<lambda>a b. \<not> order b < order a) ys"
    and sz: "sorted (map order zs)" and dz: "distinct (map order zs)"
  shows "ys = zs"
proof -
  have "sorted_wrt (\<lambda>a b. order a \<le> order b) ys"
    using so by (simp add: not_less)
  then have s1: "sorted (map order ys)" by (simp add: sorted_map)
  have m: "mset (map order ys) = mset (map order zs)"
    using ms by (metis mset_map)
  then have d1: "distinct (map order ys)" using dz by (metis mset_eq_imp_distinct_iff)
  have "set (map order ys) = set (map order zs)" using m by (metis mset_eq_setD)
  then have eq: "map order ys = map order zs"
    using s1 d1 dz sz by (intro sorted_distinct_set_unique) auto
  have "set ys = set zs" using ms by (metis mset_eq_setD)
  moreover have "inj_on order (set zs)" using dz by (simp add: distinct_map)
  ultimately show ?thesis using eq by (intro map_inj_on [of order]) auto
qed










lemma sorts_by_order_sort_key: "sorts_by_order (sort_key order)"
  unfolding sorts_by_order_def
proof (intro allI conjI)
  fix ods :: "'a orderedData list"
  show "mset (sort_key order ods) = mset ods" by simp
  have "sorted (map order (sort_key order ods))" by simp
  then show "sorted_wrt (\<lambda>a b. \<not> order b < order a) (sort_key order ods)"
    by (simp add: sorted_map not_less)
qed



subsection \<open>Limit and Skip\<close>






lemma skip_discard_requests:
  "emits up (ups w) xs \<Longrightarrow> \<not> returned w \<Longrightarrow>
   (case skip_discard up w of
      (ok, w') \<Rightarrow> prevReqs w' = prevReqs w + (if ok then nat (skipN w) else length xs + 1) \<and>
        (ok \<longrightarrow> nat (skipN w) \<le> length xs))"
proof (induction up w arbitrary: xs rule: skip_discard.induct)
  case (1 up w)
  show ?case
  proof (cases "skipN w > 0")
    case False
    then show ?thesis by (simp add: skip_discard_done)
  next
    case True
    show ?thesis
    proof (cases xs)
      case Nil
      then show ?thesis using True "1.prems"
        by (subst skip_discard.simps) (auto simp: getPrevData_def split: prod.splits option.splits)
    next
      case (Cons x xs')
      obtain u' where up: "up (ups w) = (Some x, u')" and rest: "emits up u' xs'"
        using "1.prems"(1) Cons by (cases "up (ups w)") auto
      define w1 where "w1 = w\<lparr>ups := u', prevReqs := prevReqs w + 1\<rparr>"
      have g: "getPrevData up w = (Some x, w1)" by (simp add: getPrevData_def up w1_def)
      have ih: "case skip_discard up (w1\<lparr>skipN := skipN w1 - 1\<rparr>) of
          (ok, w') \<Rightarrow> prevReqs w' = prevReqs (w1\<lparr>skipN := skipN w1 - 1\<rparr>) +
             (if ok then nat (skipN (w1\<lparr>skipN := skipN w1 - 1\<rparr>)) else length xs' + 1) \<and>
             (ok \<longrightarrow> nat (skipN (w1\<lparr>skipN := skipN w1 - 1\<rparr>)) \<le> length xs')"
        using "1.prems" rest by (intro "1.IH" [OF True g [symmetric] refl]) (auto simp: w1_def)
      have e: "skip_discard up w = skip_discard up (w1\<lparr>skipN := skipN w1 - 1\<rparr>)"
        using True g by (subst skip_discard.simps) simp
      show ?thesis using ih True Cons unfolding e
        by (auto simp: w1_def nat_diff_distrib split: prod.splits)
    qed
  qed
qed

lemma skip_first_request:
  assumes "emits up (ups w) xs" "\<not> returned w"
  shows "prevReqs (snd (skip_serve up w)) = prevReqs w + min (nat (skipN w)) (length xs) + 1"
proof -
  obtain ok w' where d: "skip_discard up w = (ok, w')" by (cases "skip_discard up w")
  note h = skip_discard_emits [OF assms] skip_discard_requests [OF assms]
  show ?thesis
  proof (cases ok)
    case False
    then show ?thesis using h d assms by (auto simp: skip_serve_def)
  next
    case True
    then have le: "nat (skipN w) \<le> length xs" using h d by auto
    show ?thesis using h d assms True le
      by (auto simp: skip_serve_def getPrevData_def split: prod.splits option.splits)
  qed
qed


lemma Of_Skip_Limit_ToSlice_eq:
  assumes srt: "sorts_by_order sortSlice" and len: "length xs < 2 ^ 64" and m: "0 < m"
  shows "Of_Skip_Limit_ToSlice sortSlice xs n m = Some (Inr (take (nat m) (drop (nat n) xs)))"
proof -
  let ?ys = "take (nat m) (drop (nat n) (Of_items xs))"
  define w where "w = \<lparr>ups = skip n (0::nat), prevReqs = 0, returned = False, count = m\<rparr>"
  have l: "limit m (skip n (0::nat)) = Inr w" using m by (simp add: limit_def w_def)
  have "emits (skip_serve (Of_serve xs)) (skip n 0) (drop (nat (skipN (skip n (0::nat)))) (Of_items xs))"
    by (rule skip_emits) (simp_all add: skip_def Of_emits)
  then have "emits (skip_serve (Of_serve xs)) (ups w) (drop (nat n) (Of_items xs))"
    by (simp add: skip_def w_def)
  then have "emits (limit_serve (skip_serve (Of_serve xs))) w
      (take (nat (count w)) (drop (nat n) (Of_items xs)))"
    using m by (intro limit_emits) (simp_all add: w_def)
  then have e: "emits (limit_serve (skip_serve (Of_serve xs))) w ?ys" by (simp add: w_def)
  obtain s' where t: "terminalOpOrderedData (limit_serve (skip_serve (Of_serve xs)))
      (\<lambda>ods od. ods @ [od]) w [] = Some (foldl (\<lambda>ods od. ods @ [od]) [] ?ys, s')"
    using emits_terminalOpOrderedData [OF e, where op = "\<lambda>ods od. ods @ [od]" and c = "[]"]
    by blast
  have f: "foldl (\<lambda>ods od. ods @ [od]) acc zs = acc @ zs" for acc zs :: "'a orderedData list"
    by (induction zs arbitrary: acc) auto
  have "sorted (map order ?ys)" "distinct (map order ?ys)"
    using sorted_order_Of_items [OF len] distinct_order_Of_items [OF len]
    by (simp_all add: take_map [symmetric] drop_map [symmetric])
  then have "sortSlice ?ys = ?ys"
    using srt by (intro sorted_perm_unique) (auto simp: sorts_by_order_def)
  then have c: "combine sortSlice [?ys] = take (nat m) (drop (nat n) xs)"
    by (simp add: combine_def take_map [symmetric] drop_map [symmetric] data_Of_items)
  show ?thesis
    using l t c
    by (simp add: Of_Skip_Limit_ToSlice_def Skip_def Limit_def validateState_def Of_stream_def
        newGenericStream_def ToSlice_sequential_def ToSlice_def f)
qed

text \<open>
  C6. \<^verbatim>\<open>skip(n)\<close> on an upstream that sends the items \<open>xs\<close> sends \<open>drop n xs\<close>: on the
  first request it discards \<open>n\<close> items, or all of them when there are fewer, which with the
  request for the item to forward makes \<open>min n (length xs) + 1\<close> requests upstream; the
  rest is forwarded unchanged. And \<^verbatim>\<open>Of(0..999).Skip(10).Limit(90).ToSlice()\<close> is the
  slice \<open>10..99\<close>.
\<close>

theorem skip_contract:
  "(emits up u xs \<longrightarrow>
      emits (skip_serve up) (skip n u) (drop (nat n) xs) \<and>
      prevReqs (snd (skip_serve up (skip n u))) = min (nat n) (length xs) + 1) \<and>
   (sorts_by_order sortSlice \<longrightarrow>
      Of_Skip_Limit_ToSlice sortSlice (map int [0..<1000]) 10 90 = Some (Inr (map int [10..<100])))"
proof (intro conjI impI)
  assume e: "emits up u xs"
  then have e': "emits up (ups (skip n u)) xs" and r: "\<not> returned (skip n u)"
    by (simp_all add: skip_def)
  from skip_emits [OF e' r] show "emits (skip_serve up) (skip n u) (drop (nat n) xs)"
    by (simp add: skip_def)
  from skip_first_request [OF e' r]
  show "prevReqs (snd (skip_serve up (skip n u))) = min (nat n) (length xs) + 1"
    by (simp add: skip_def)
next
  assume "sorts_by_order sortSlice"
  then have "Of_Skip_Limit_ToSlice sortSlice (map int [0..<1000]) 10 90 =
      Some (Inr (take (nat 90) (drop (nat 10) (map int [0..<1000]))))"
    by (intro Of_Skip_Limit_ToSlice_eq) simp_all
  also have "take (nat 90) (drop (nat 10) (map int [0..<1000])) = map int [10..<100]"
    by (simp add: take_map drop_map)
  finally show "Of_Skip_Limit_ToSlice sortSlice (map int [0..<1000]) 10 90 =
      Some (Inr (map int [10..<100]))" .
qed

theorem skip_contract_witness:
  "emits (Of_serve [''a'', ''b'', ''c'']) 0 (Of_items [''a'', ''b'', ''c'']) \<and>
   emits (skip_serve (Of_serve [''a'', ''b'', ''c''])) (skip 2 0) [\<lparr>order = 2, data = ''c''\<rparr>] \<and>
   prevReqs (snd (skip_serve (Of_serve [''a'', ''b'', ''c'']) (skip 2 0))) = 3 \<and>
   sorts_by_order (sort_key order :: int orderedData list \<Rightarrow> _) \<and>
   Of_Skip_Limit_ToSlice (sort_key order) (map int [0..<1000]) 10 90 = Some (Inr (map int [10..<100]))"
proof -
  have a: "emits (Of_serve [''a'', ''b'', ''c'']) 0 (Of_items [''a'', ''b'', ''c''])"
    by (rule Of_emits)
  have i: "Of_items [''a'', ''b'', ''c''] =
      [\<lparr>order = 0, data = ''a''\<rparr>, \<lparr>order = 1, data = ''b''\<rparr>, \<lparr>order = 2, data = ''c''\<rparr>]"
    by (simp add: Of_items_def upt_rec)
  have b: "sorts_by_order (sort_key order :: int orderedData list \<Rightarrow> _)"
    by (rule sorts_by_order_sort_key)
  show ?thesis
    using skip_contract [where up = "Of_serve [''a'', ''b'', ''c'']" and u = 0
        and xs = "Of_items [''a'', ''b'', ''c'']" and n = 2 and sortSlice = "sort_key order"] a b
    by (simp add: i)
qed

subsection \<open>The match family on an empty source\<close>

lemma reply_shift: "reply serve (snd (serve s)) k = reply serve s (Suc k)"
proof -
  define F where "F = (\<lambda>s. snd (serve s))"
  have "(F ^^ k) (F s) = F ((F ^^ k) s)" by (rule funpow_swap1 [symmetric])
  then show ?thesis by (simp add: reply_def F_def)
qed

lemma run_match_workers_closed:
  assumes "\<forall>k. reply serve s k = None"
  shows "\<exists>s'. run_match_workers serve match sched s g ds =
           (s', g, map (\<lambda>w. ds ! w \<or> w \<in> set sched) [0..<length ds])"
  using assms
proof (induction sched arbitrary: s ds)
  case Nil
  then show ?case by (simp add: map_nth)
next
  case (Cons w sched)
  show ?case
  proof (cases "w < length ds \<and> \<not> ds ! w")
    case False
    have m: "map (\<lambda>v. ds ! v \<or> v \<in> set (w # sched)) [0..<length ds] =
        map (\<lambda>v. ds ! v \<or> v \<in> set sched) [0..<length ds]"
      using False by auto
    have e: "run_match_workers serve match (w # sched) s g ds =
        run_match_workers serve match sched s g ds"
      using False by auto
    show ?thesis unfolding e m by (rule Cons.IH [OF Cons.prems])
  next
    case True
    obtain s1 where s1: "serve s = (None, s1)"
      using Cons.prems [rule_format, of 0] by (cases "serve s") (auto simp: reply_def)
    have c: "\<forall>k. reply serve s1 k = None"
      using Cons.prems reply_shift [of serve s] s1 by simp
    have m: "map (\<lambda>v. ds[w := True] ! v \<or> v \<in> set sched) [0..<length (ds[w := True])] =
        map (\<lambda>v. ds ! v \<or> v \<in> set (w # sched)) [0..<length ds]"
      using True by (auto simp: nth_list_update)
    have e: "run_match_workers serve match (w # sched) s g ds =
        run_match_workers serve match sched s1 g (ds[w := True])"
      using True s1 by simp
    show ?thesis unfolding e m [symmetric] by (rule Cons.IH [OF c])
  qed
qed


lemma match_workers_closed:
  assumes "\<forall>k. reply serve s k = None" "\<forall>w < nat (parallelCount gs). w \<in> set sched"
  shows "match_workers gs serve match s g sched = Some g"
proof -
  obtain s' where "run_match_workers serve match sched s g (replicate (nat (parallelCount gs)) False) =
      (s', g, map (\<lambda>w. replicate (nat (parallelCount gs)) False ! w \<or> w \<in> set sched)
                [0..<length (replicate (nat (parallelCount gs)) False)])"
    using run_match_workers_closed [OF assms(1), where match = match and sched = sched and g = g
        and ds = "replicate (nat (parallelCount gs)) False"]
    by blast
  moreover have "list_all (\<lambda>d. d)
      (map (\<lambda>w. replicate (nat (parallelCount gs)) False ! w \<or> w \<in> set sched)
         [0..<length (replicate (nat (parallelCount gs)) False)])"
    using assms(2) by (simp add: list_all_iff)
  ultimately show ?thesis by (simp add: match_workers_def)
qed

lemma Of_empty_closed: "reply (Of_serve []) 0 k = None"
proof -
  have "((\<lambda>s. snd (Of_serve [] s)) ^^ k) 0 = 0"
    by (induction k) (simp_all add: Of_serve_def)
  then show ?thesis by (simp add: reply_def Of_serve_def)
qed

lemma Empty_closed: "reply Empty_serve s k = None"
  by (simp add: reply_def Empty_serve_def)

text \<open>
  C8. On a source whose data channel is closed from the start, as that of
  \<^verbatim>\<open>Of()\<close> and \<^verbatim>\<open>Empty()\<close>, and once each worker has run, \<^verbatim>\<open>AnyMatch\<close> returns
  false, \<^verbatim>\<open>AllMatch\<close> true and \<^verbatim>\<open>NoneMatch\<close> true, and the state of the predicate is
  the one it started with: it has not been called.
\<close>

theorem match_family_empty_source:
  assumes "\<forall>k. reply serve s k = None" "\<not> closed gs"
    "\<forall>w < nat (parallelCount gs). w \<in> set sched"
  shows "AnyMatch gs serve s predicate p sched = Some (Inr (False, p)) \<and>
         AllMatch gs serve s predicate p sched = Some (Inr (True, p)) \<and>
         NoneMatch gs serve s predicate p sched = Some (Inr (True, p))"
  using assms(2)
    match_workers_closed [OF assms(1,3), where match = "anyMatch_fn predicate" and g = "(0, p)"]
    match_workers_closed [OF assms(1,3), where match = "allMatch_fn predicate" and g = "(1, p)"]
  by (simp add: AnyMatch_def AllMatch_def NoneMatch_def validateState_def)

theorem match_family_empty_source_witness:
  "\<not> closed (Of_stream\<lparr>parallel := True, parallelCount := 2, terminalCloseCount := 2\<rparr>) \<and>
   AnyMatch (Of_stream\<lparr>parallel := True, parallelCount := 2, terminalCloseCount := 2\<rparr>)
     (Of_serve []) 0 (\<lambda>c t. ((5::nat) < t, c + 1)) (0::nat) [1, 0] = Some (Inr (False, 0)) \<and>
   AllMatch (Of_stream\<lparr>parallel := True, parallelCount := 2, terminalCloseCount := 2\<rparr>)
     (Of_serve []) 0 (\<lambda>c t. ((5::nat) < t, c + 1)) (0::nat) [1, 0] = Some (Inr (True, 0)) \<and>
   NoneMatch (Of_stream\<lparr>parallel := True, parallelCount := 2, terminalCloseCount := 2\<rparr>)
     (Of_serve []) 0 (\<lambda>c t. ((5::nat) < t, c + 1)) (0::nat) [1, 0] = Some (Inr (True, 0))"
proof -
  let ?gs = "Of_stream\<lparr>parallel := True, parallelCount := 2, terminalCloseCount := 2\<rparr>"
  have a: "\<forall>k. reply (Of_serve ([] :: nat list)) 0 k = None" by (simp add: Of_empty_closed)
  have b: "\<not> closed ?gs" by (simp add: Of_stream_def)
  have c: "\<forall>w < nat (parallelCount ?gs). w \<in> set [1, 0]"
    by (auto simp: Of_stream_def)
  show ?thesis
    using match_family_empty_source [OF a b c, where predicate = "\<lambda>c t. ((5::nat) < t, c + 1)" and p = "0::nat"]
      a b c
    by blast
qed

subsection \<open>Sorted\<close>











subsection \<open>FindFirst\<close>

lemma FindFirst_eq:
  "FindFirst gs serve s =
     (if closed gs then Some (Inl (Panic ''stream has already been closed''))
      else (case serve s of
              None \<Rightarrow> None
            | Some (None, _) \<Rightarrow> Some (Inr None)
            | Some (Some od, _) \<Rightarrow> Some (Inr (Some (data od)))))"
  unfolding FindFirst_def validateState_def
  by (subst terminalOpMatch.simps) (auto split: option.splits prod.splits)

text \<open>
  On a stream with one worker, and on a parallel stage whose upstream still has an item,
  \<^verbatim>\<open>FindFirst\<close> returns the first item of the upstream, whichever worker serves.
\<close>

lemma FindFirst_first:
  assumes "\<not> closed gs"
  shows "FindFirst gs (\<lambda>s. Some (serve s)) s = Some (Inr (map_option data (fst (serve s))))"
    and "fst (serve s) = Some od \<Longrightarrow> FindFirst gs (drain_serve serve) (gs, s) = Some (Inr (Some (data od)))"
  using assms
  by (auto simp: FindFirst_eq drain_serve_def split: option.splits prod.splits)

text \<open>
  C4 at \<^verbatim>\<open>Empty[T]().Parallel().FindFirst()\<close> with two workers: the call does not
  return. On \<^verbatim>\<open>Of[T]().Parallel()\<close>, where \<^verbatim>\<open>prevDone\<close> is set, it returns the empty
  \<^verbatim>\<open>Optional\<close>, and on \<^verbatim>\<open>Of(7, 8).Parallel()\<close> the first element.
\<close>

theorem FindFirst_parallel_Empty_blocks:
  "Parallel 2 single_stream =
     Inr \<lparr>closed = False, parallel = True, parallelCount = 2, ordered = False,
          terminalCloseCount = 2, prevDone = False\<rparr> \<and>
   FindFirst \<lparr>closed = False, parallel = True, parallelCount = 2, ordered = False,
          terminalCloseCount = 2, prevDone = False\<rparr>
     (drain_serve (Empty_serve :: unit \<Rightarrow> nat orderedData option \<times> unit))
     (\<lparr>closed = False, parallel = True, parallelCount = 2, ordered = False,
          terminalCloseCount = 2, prevDone = False\<rparr>, ()) = None \<and>
   Parallel 2 Of_stream =
     Inr \<lparr>closed = False, parallel = True, parallelCount = 2, ordered = False,
          terminalCloseCount = 2, prevDone = True\<rparr> \<and>
   FindFirst \<lparr>closed = False, parallel = True, parallelCount = 2, ordered = False,
          terminalCloseCount = 2, prevDone = True\<rparr>
     (drain_serve (Of_serve ([] :: nat list)))
     (\<lparr>closed = False, parallel = True, parallelCount = 2, ordered = False,
          terminalCloseCount = 2, prevDone = True\<rparr>, 0) = Some (Inr None) \<and>
   FindFirst \<lparr>closed = False, parallel = True, parallelCount = 2, ordered = False,
          terminalCloseCount = 2, prevDone = True\<rparr>
     (drain_serve (Of_serve [7 :: nat, 8]))
     (\<lparr>closed = False, parallel = True, parallelCount = 2, ordered = False,
          terminalCloseCount = 2, prevDone = True\<rparr>, 0) = Some (Inr (Some 7))"
  by (simp add: FindFirst_eq drain_serve_def Parallel_def validateState_def single_stream_def
      Of_stream_def newGenericStream_def Empty_serve_def Of_serve_def close_def Let_def)

subsection \<open>FlatMap\<close>

lemma emitsP_cong: "serve s = serve s' \<Longrightarrow> emitsP serve s xs = emitsP serve s' xs"
  by (cases xs) simp_all

lemma renumber_Cons_Cons:
  "renumber off lo ((it # ns) # nss) =
     \<lparr>order = order it + off, data = data it\<rparr> # renumber off (order it) (ns # nss)"
  by (simp add: Let_def)

lemma FlatMap_in_nested:
  assumes B: "\<And>w :: ('u, 'n) flatmap_worker. \<not> returned w \<Longrightarrow> rgs w = None \<Longrightarrow> ups w = u \<Longrightarrow>
      emitsP (FlatMap_serve up mapper nserve) w (renumber (offset w) (lastOrder w) nss)"
  shows "\<not> returned w \<Longrightarrow> rgs w = Some r \<Longrightarrow> ups w = u \<Longrightarrow> emits nserve r ns \<Longrightarrow>
      emitsP (FlatMap_serve up mapper nserve) w (renumber (offset w) (lastOrder w) (ns # nss))"
proof (induction ns arbitrary: w r)
  case Nil
  then obtain r' where n: "nserve r = (None, r')" by (cases "nserve r") auto
  define w2 where "w2 = w\<lparr>rgs := None, offset := offset w + lastOrder w + 1\<rparr>"
  have "FlatMap_serve up mapper nserve w = FlatMap_serve up mapper nserve w2"
    using Nil n by (subst FlatMap_serve.simps) (simp add: w2_def)
  moreover have "emitsP (FlatMap_serve up mapper nserve) w2 (renumber (offset w2) (lastOrder w2) nss)"
    using Nil by (intro B) (simp_all add: w2_def)
  ultimately show ?case
    by (simp add: emitsP_cong [of _ w w2] w2_def Let_def)
next
  case (Cons it ns)
  then obtain r' where n: "nserve r = (Some it, r')" and e: "emits nserve r' ns"
    by (cases "nserve r") auto
  define w2 where "w2 = w\<lparr>rgs := Some r', lastOrder := order it\<rparr>"
  have s: "FlatMap_serve up mapper nserve w =
      Some (Some \<lparr>order = order it + offset w, data = data it\<rparr>, w2)"
    using Cons.prems n by (subst FlatMap_serve.simps) (simp add: w2_def)
  have "emitsP (FlatMap_serve up mapper nserve) w2
      (renumber (offset w2) (lastOrder w2) (ns # nss))"
    using Cons.prems e by (intro Cons.IH [of w2 r']) (simp_all add: w2_def)
  then show ?case
    unfolding renumber_Cons_Cons using s by (simp add: w2_def)
qed

lemma FlatMap_emits_from:
  assumes "emits up u xs" "\<forall>x \<in> set xs. emits nserve (mapper (data x)) (nested (data x))"
    "\<not> returned (w :: ('u, 'n) flatmap_worker)" "rgs w = None" "ups w = u"
  shows "emitsP (FlatMap_serve up mapper nserve) w
           (renumber (offset w) (lastOrder w) (map (nested \<circ> data) xs))"
  using assms
proof (induction xs arbitrary: u w)
  case Nil
  then obtain u' where "up (ups w) = (None, u')" by (cases "up (ups w)") auto
  then have "FlatMap_serve up mapper nserve w =
      Some (None, w\<lparr>ups := u', prevReqs := prevReqs w + 1, returned := True\<rparr>)"
    using Nil by (subst FlatMap_serve.simps) (simp add: getPrevData_def)
  then show ?case by simp
next
  case (Cons x xs)
  obtain u' where up: "up (ups w) = (Some x, u')" and rest: "emits up u' xs"
    using Cons.prems(1,5) by (cases "up (ups w)") auto
  define w2 where "w2 = w\<lparr>ups := u', prevReqs := prevReqs w + 1, rgs := Some (mapper (data x))\<rparr>"
  have feq: "FlatMap_serve up mapper nserve w = FlatMap_serve up mapper nserve w2"
    using Cons.prems up by (subst FlatMap_serve.simps) (simp add: getPrevData_def w2_def)
  have o: "offset w2 = offset w" "lastOrder w2 = lastOrder w" by (simp_all add: w2_def)
  have m: "map (nested \<circ> data) (x # xs) = nested (data x) # map (nested \<circ> data) xs"
    by simp
  have "emitsP (FlatMap_serve up mapper nserve) w2
      (renumber (offset w2) (lastOrder w2) (nested (data x) # map (nested \<circ> data) xs))"
  proof (rule FlatMap_in_nested [where u = u' and r = "mapper (data x)"])
    fix v :: "('u, 'n) flatmap_worker"
    assume "\<not> returned v" "rgs v = None" "ups v = u'"
    then show "emitsP (FlatMap_serve up mapper nserve) v
        (renumber (offset v) (lastOrder v) (map (nested \<circ> data) xs))"
      using Cons.prems(2) rest by (intro Cons.IH [of u']) simp_all
  qed (use Cons.prems in \<open>simp_all add: w2_def\<close>)
  then have "emitsP (FlatMap_serve up mapper nserve) w2
      (renumber (offset w) (lastOrder w) (nested (data x) # map (nested \<circ> data) xs))"
    by (simp only: o)
  then have "emitsP (FlatMap_serve up mapper nserve) w
      (renumber (offset w) (lastOrder w) (nested (data x) # map (nested \<circ> data) xs))"
    using emitsP_cong [OF feq] by blast
  then show ?case unfolding m .
qed


lemma renumber_data: "map data (renumber off lo nss) = concat (map (map data) nss)"
  by (induction nss arbitrary: off lo) (simp_all add: Let_def comp_def)

lemma sorted_le_last:
  "sorted_wrt (<) (map order ns) \<Longrightarrow> it \<in> set ns \<Longrightarrow> order it \<le> order (last ns)"
  by (induction ns) (auto simp: less_imp_le)

lemma unat_add64:
  "unat (a :: 64 word) + unat b < 2 ^ 64 \<Longrightarrow> unat (a + b) = unat a + unat b"
  using unat_add_lem [of a b] by simp

lemma renumber_increasing:
  "no_wrap off lo nss \<Longrightarrow> \<forall>ns \<in> set nss. sorted_wrt (<) (map order ns) \<Longrightarrow>
   sorted_wrt (<) (map order (renumber off lo nss)) \<and>
   (\<forall>out \<in> set (renumber off lo nss). off \<le> order out)"
proof (induction nss arbitrary: off lo)
  case Nil
  then show ?case by simp
next
  case (Cons ns nss)
  define lo' where "lo' = (if ns = [] then lo else order (last ns))"
  define off' where "off' = off + lo' + 1"
  define f where "f = (\<lambda>it :: 'a orderedData. \<lparr>order = order it + off, data = data it\<rparr>)"
  have A: "\<And>it. it \<in> set ns \<Longrightarrow> unat (order it) + unat off < 2 ^ 64"
    and B: "unat off + unat lo' + 1 < 2 ^ 64" and C: "no_wrap off' lo' nss"
    using Cons.prems(1) by (auto simp: lo'_def off'_def Let_def list_all_iff)
  have uo': "unat off' = unat off + unat lo' + 1"
  proof -
    have "unat (off + lo') = unat off + unat lo'" using B by (intro unat_add64) simp
    moreover have "unat (off + lo' + 1) = unat (off + lo') + unat (1 :: 64 word)"
      using B calculation by (intro unat_add64) simp
    ultimately show ?thesis by (simp add: off'_def)
  qed
  have uf: "unat (order (f it)) = unat (order it) + unat off" if "it \<in> set ns" for it
    using A [OF that] by (simp add: f_def unat_add64)
  have so: "sorted_wrt (<) (map order ns)" using Cons.prems(2) by simp
  from Cons.IH [OF C] Cons.prems(2)
  have ih: "sorted_wrt (<) (map order (renumber off' lo' nss))"
    "\<And>out. out \<in> set (renumber off' lo' nss) \<Longrightarrow> off' \<le> order out"
    by auto
  have r: "renumber off lo (ns # nss) = map f ns @ renumber off' lo' nss"
    by (simp add: f_def lo'_def off'_def Let_def)
  have s1: "sorted_wrt (<) (map order (map f ns))"
  proof -
    have "sorted_wrt (\<lambda>a b. order a < order b) ns" using so by (simp add: sorted_wrt_map)
    then have "sorted_wrt (\<lambda>a b. order (f a) < order (f b)) ns"
      by (rule sorted_wrt_mono_rel [rotated]) (simp add: word_less_nat_alt uf)
    then show ?thesis by (simp add: sorted_wrt_map)
  qed
  have cross: "order (f it) < order out"
    if "it \<in> set ns" "out \<in> set (renumber off' lo' nss)" for it out
  proof -
    have "ns \<noteq> []" using that(1) by auto
    then have "order it \<le> lo'" using sorted_le_last [OF so that(1)] by (simp add: lo'_def)
    then have "unat (order (f it)) < unat off'"
      using uf [OF that(1)] uo' by (simp add: word_le_nat_alt)
    moreover have "unat off' \<le> unat (order out)"
      using ih(2) [OF that(2)] by (simp add: word_le_nat_alt)
    ultimately show ?thesis by (simp add: word_less_nat_alt)
  qed
  have lower: "off \<le> order out" if mem: "out \<in> set (map f ns @ renumber off' lo' nss)" for out
  proof -
    consider it where "it \<in> set ns" "out = f it" | "out \<in> set (renumber off' lo' nss)"
      using mem by auto
    then show ?thesis
    proof cases
      case 1
      then show ?thesis using uf [OF 1(1)] by (simp add: word_le_nat_alt)
    next
      case 2
      then have "unat off' \<le> unat (order out)" using ih(2) by (simp add: word_le_nat_alt)
      then show ?thesis using uo' by (simp add: word_le_nat_alt)
    qed
  qed
  show ?case
    unfolding r using s1 ih(1) cross lower
    by (auto simp: sorted_wrt_append simp del: map_map)
qed

lemma Of_nested_emits_from: "emits Of_nested (xs, i) ys = emits (Of_serve xs) i ys"
  by (induction ys arbitrary: i) (auto simp: Of_nested_def split: prod.splits)

lemma Of_nested_emits: "emits Of_nested (xs, 0) (Of_items xs)"
  by (simp add: Of_nested_emits_from Of_emits)

lemma FlatMap_emits:
  assumes "emits up u xs" "\<forall>x \<in> set xs. emits nserve (mapper (data x)) (nested (data x))"
  shows "emitsP (FlatMap_serve up mapper nserve) (FlatMap_start u)
           (renumber 0 0 (map (nested \<circ> data) xs))"
  using FlatMap_emits_from [OF assms, of "FlatMap_start u"] by (simp add: FlatMap_start_def)

text \<open>
  C7, as the code has it. On an upstream that sends \<open>xs\<close>, each of whose items opens a
  nested stream that sends finitely many items, \<^verbatim>\<open>FlatMap\<close> sends the items of the nested
  streams, each drained to its end, one stream after the other, numbered as \<open>renumber\<close>
  says: \<^verbatim>\<open>offset\<close> is added, and \<^verbatim>\<open>offset += lastOrder + 1\<close> at the end of each nested
  stream. The numbers are strictly increasing when those of each nested stream are and no
  addition wraps around; they need not be contiguous. The stream returned has one worker.
\<close>

theorem FlatMap_contract:
  assumes "emits up u xs" "\<forall>x \<in> set xs. emits nserve (mapper (data x)) (nested (data x))"
  shows "emitsP (FlatMap_serve up mapper nserve) (FlatMap_start u)
           (renumber 0 0 (map (nested \<circ> data) xs)) \<and>
         map data (renumber 0 0 (map (nested \<circ> data) xs)) =
           concat (map (map data \<circ> nested \<circ> data) xs) \<and>
         (no_wrap 0 0 (map (nested \<circ> data) xs) \<and>
          (\<forall>x \<in> set xs. sorted_wrt (<) (map order (nested (data x)))) \<longrightarrow>
            sorted_wrt (<) (map order (renumber 0 0 (map (nested \<circ> data) xs)))) \<and>
         (\<not> closed gs \<longrightarrow> FlatMap_stream gs = Inr single_stream) \<and>
         parallelCount single_stream = 1"
proof (intro conjI impI)
  show "emitsP (FlatMap_serve up mapper nserve) (FlatMap_start u)
      (renumber 0 0 (map (nested \<circ> data) xs))"
    by (rule FlatMap_emits [OF assms])
  show "map data (renumber 0 0 (map (nested \<circ> data) xs)) =
      concat (map (map data \<circ> nested \<circ> data) xs)"
    by (simp add: renumber_data comp_def)
  show "sorted_wrt (<) (map order (renumber 0 0 (map (nested \<circ> data) xs)))"
    if "no_wrap 0 0 (map (nested \<circ> data) xs) \<and>
        (\<forall>x \<in> set xs. sorted_wrt (<) (map order (nested (data x))))"
    using that renumber_increasing [of 0 0 "map (nested \<circ> data) xs"] by simp
  show "FlatMap_stream gs = Inr single_stream" if "\<not> closed gs"
    using that by (simp add: FlatMap_stream_def validateState_def)
  show "parallelCount single_stream = 1" by (simp add: single_stream_def)
qed

lemma Of_items_3: "Of_items [a, b, c] =
    [\<lparr>order = 0, data = a\<rparr>, \<lparr>order = 1, data = b\<rparr>, \<lparr>order = 2, data = c\<rparr>]"
  by (simp add: Of_items_def upt_rec)

lemma Of_items_2: "Of_items [a, b] = [\<lparr>order = 0, data = a\<rparr>, \<lparr>order = 1, data = b\<rparr>]"
  by (simp add: Of_items_def upt_rec)

lemma Of_items_1: "Of_items [a] = [\<lparr>order = 0, data = a\<rparr>]"
  by (simp add: Of_items_def)

lemma Of_items_0: "Of_items [] = []"
  by (simp add: Of_items_def)

text \<open>
  The claim as stated fails: \<^verbatim>\<open>FlatMap(Of("ab", "", "c"), runeStream)\<close> numbers its
  items 0, 1 and 4. The empty nested stream adds \<^verbatim>\<open>lastOrder + 1\<close>, with the
  \<^verbatim>\<open>lastOrder\<close> of the stream before it, to the offset a second time.
\<close>

theorem FlatMap_not_contiguous:
  "emitsP (FlatMap_serve (Of_serve [''ab'', [], ''c'']) (\<lambda>s. (s, 0)) Of_nested) (FlatMap_start 0)
     [\<lparr>order = 0, data = CHR ''a''\<rparr>, \<lparr>order = 1, data = CHR ''b''\<rparr>,
      \<lparr>order = 4, data = CHR ''c''\<rparr>] \<and>
   map order [\<lparr>order = 0, data = CHR ''a''\<rparr>, \<lparr>order = 1, data = CHR ''b''\<rparr>,
      \<lparr>order = 4, data = CHR ''c''\<rparr>] \<noteq> [0, 1, 2]"
proof -
  have "emitsP (FlatMap_serve (Of_serve [''ab'', [], ''c'']) (\<lambda>s. (s, 0)) Of_nested)
      (FlatMap_start 0) (renumber 0 0 (map (Of_items \<circ> data) (Of_items [''ab'', [], ''c''])))"
    by (rule FlatMap_emits [OF Of_emits]) (simp add: Of_nested_emits)
  then show ?thesis
    by (simp add: Of_items_3 Of_items_2 Of_items_1 Of_items_0)
qed

theorem FlatMap_contract_witness:
  "emitsP (FlatMap_serve (Of_serve [''yo'', ''ur'']) (\<lambda>s. (s, 0)) Of_nested) (FlatMap_start 0)
     [\<lparr>order = 0, data = CHR ''y''\<rparr>, \<lparr>order = 1, data = CHR ''o''\<rparr>,
      \<lparr>order = 2, data = CHR ''u''\<rparr>, \<lparr>order = 3, data = CHR ''r''\<rparr>] \<and>
   sorted_wrt (<) (map order
     [\<lparr>order = 0, data = CHR ''y''\<rparr>, \<lparr>order = 1, data = CHR ''o''\<rparr>,
      \<lparr>order = 2, data = CHR ''u''\<rparr>, \<lparr>order = 3 :: 64 word, data = CHR ''r''\<rparr>]) \<and>
   FlatMap_stream Of_stream = Inr single_stream \<and> parallelCount single_stream = 1"
proof -
  let ?xs = "Of_items [''yo'', ''ur'']"
  have e: "emits (Of_serve [''yo'', ''ur'']) 0 ?xs" by (rule Of_emits)
  have n: "\<forall>x \<in> set ?xs. emits Of_nested ((\<lambda>s. (s, 0)) (data x)) (Of_items (data x))"
    by (simp add: Of_nested_emits)
  have r: "renumber 0 0 (map (Of_items \<circ> data) ?xs) =
      [\<lparr>order = 0, data = CHR ''y''\<rparr>, \<lparr>order = 1, data = CHR ''o''\<rparr>,
       \<lparr>order = 2, data = CHR ''u''\<rparr>, \<lparr>order = 3, data = CHR ''r''\<rparr>]"
    by (simp add: Of_items_2)
  have w: "no_wrap 0 0 (map (Of_items \<circ> data) ?xs)"
    by (simp add: Of_items_2)
  have s: "\<forall>x \<in> set ?xs. sorted_wrt (<) (map order (Of_items (data x)))"
    by (simp add: Of_items_2)
  have o: "\<not> closed Of_stream" by (simp add: Of_stream_def)
  show ?thesis
    using FlatMap_contract [OF e n, where gs = Of_stream] w s o unfolding r
    by blast
qed

end
